theory Spec2Isabelle
  imports Main
begin

section \<open>Python strings as lists of code points\<close>

text \<open>
  A Python \<open>str\<close> is a sequence of Unicode code points; \<open>len\<close>, slicing and
  \<open>startswith\<close> all count code points. A string is therefore modelled as a list of
  natural numbers, one per code point. \<open>ascii\<close> turns an (ASCII) HOL string literal into such
  a list, so that examples stay readable.
\<close>

type_synonym pystr = "nat list"

definition ascii :: "string \<Rightarrow> pystr" where
  "ascii s = map of_char s"

text \<open>
  \<open>str.strip()\<close> without argument removes the characters for which \<open>str.isspace\<close>
  holds: U+0009..U+000D, U+001C..U+0020, U+0085, U+00A0, U+1680, U+2000..U+200A, U+2028,
  U+2029, U+202F, U+205F and U+3000.
\<close>

definition isspace :: "nat \<Rightarrow> bool" where
  "isspace c \<longleftrightarrow>
     (9 \<le> c \<and> c \<le> 13) \<or> (28 \<le> c \<and> c \<le> 32) \<or> c = 133 \<or> c = 160 \<or> c = 5760 \<or>
     (8192 \<le> c \<and> c \<le> 8202) \<or> c = 8232 \<or> c = 8233 \<or> c = 8239 \<or> c = 8287 \<or> c = 12288"

definition lstrip :: "pystr \<Rightarrow> pystr" where
  "lstrip s = dropWhile isspace s"

definition rstrip :: "pystr \<Rightarrow> pystr" where
  "rstrip s = rev (dropWhile isspace (rev s))"

definition strip :: "pystr \<Rightarrow> pystr" where
  "strip s = rstrip (lstrip s)"

text \<open>\<open>name.rstrip('/')\<close> removes every trailing U+002F.\<close>

definition rstrip_slash :: "pystr \<Rightarrow> pystr" where
  "rstrip_slash s = rev (dropWhile (\<lambda>c. c = 47) (rev s))"

definition startswith :: "pystr \<Rightarrow> pystr \<Rightarrow> bool" where
  "startswith s p \<longleftrightarrow> take (length p) s = p"

definition endswith_slash :: "pystr \<Rightarrow> bool" where
  "endswith_slash s \<longleftrightarrow> s \<noteq> [] \<and> last s = 47"

text \<open>
  \<open>s.split('\n')\<close>: the pieces between the occurrences of U+000A; the result of splitting
  with an explicit separator is never the empty list (\<open>''.split('\n') == ['']\<close>).
\<close>

fun split_nl :: "pystr \<Rightarrow> pystr list" where
  "split_nl [] = [[]]"
| "split_nl (c # cs) =
     (if c = 10 then [] # split_nl cs
      else (case split_nl cs of [] \<Rightarrow> [[c]] | l # ls \<Rightarrow> (c # l) # ls))"

text \<open>\<open>'/'.join(parts)\<close>.\<close>

fun join_slash :: "pystr list \<Rightarrow> pystr" where
  "join_slash [] = []"
| "join_slash [p] = p"
| "join_slash (p # q # ps) = p @ 47 # join_slash (q # ps)"

section \<open>The tokens of \<open>const.py\<close>\<close>

text \<open>
  The four tokens are the string literals of \<open>const.py\<close>, code point by code point, as the
  Python interpreter reads that file (UTF-8):
  \<^item> \<open>TREE_BRANCH\<close> is the ten code points U+201A U+00EE U+00FA U+201A U+00EE U+00C4 U+201A
    U+00EE U+00C4 U+0020;
  \<^item> \<open>TREE_LAST\<close> is the ten code points U+201A U+00EE U+00EE U+201A U+00EE U+00C4 U+201A
    U+00EE U+00C4 U+0020;
  \<^item> \<open>TREE_VERTICAL\<close> is the six code points U+201A U+00EE U+00C7 U+0020 U+0020 U+0020;
  \<^item> \<open>TREE_SPACE\<close> is four U+0020.

  These are not the box-drawing sequences U+251C U+2500 U+2500 U+0020, U+2514 U+2500 U+2500
  U+0020 and U+2502 U+0020 U+0020 U+0020 that \<open>utils.py\<close> writes when it renders a
  directory and that the example of \<open>ui.py\<close> shows; those are named \<open>BOX_BRANCH\<close>,
  \<open>BOX_LAST\<close> and \<open>BOX_VERTICAL\<close> below and are used for inputs only.
\<close>

definition TREE_BRANCH :: pystr where
  "TREE_BRANCH = [8218, 238, 250, 8218, 238, 196, 8218, 238, 196, 32]"

definition TREE_LAST :: pystr where
  "TREE_LAST = [8218, 238, 238, 8218, 238, 196, 8218, 238, 196, 32]"

definition TREE_VERTICAL :: pystr where
  "TREE_VERTICAL = [8218, 238, 199, 32, 32, 32]"

definition TREE_SPACE :: pystr where
  "TREE_SPACE = [32, 32, 32, 32]"

definition BOX_BRANCH :: pystr where
  "BOX_BRANCH = [9500, 9472, 9472, 32]"

definition BOX_LAST :: pystr where
  "BOX_LAST = [9492, 9472, 9472, 32]"

definition BOX_VERTICAL :: pystr where
  "BOX_VERTICAL = [9474, 32, 32, 32]"

section \<open>Per-line extraction: \<open>TreeParser._parse_line\<close>\<close>

text \<open>
  The \<open>while pos < len(line)\<close> loop of \<open>_parse_line\<close>. The loop state is the depth counter
  and \<open>remaining = line[pos:]\<close>; advancing \<open>pos\<close> by \<open>k\<close> is \<open>drop k\<close> on the remainder.
  The branches are in the order of the source. Leaving the loop (by \<open>pos = len(line)\<close> or by
  \<open>break\<close>) returns \<open>(0, "")\<close>.
\<close>

function scan :: "nat \<Rightarrow> pystr \<Rightarrow> nat \<times> pystr" where
  "scan depth remaining =
     (if remaining = [] then (0, [])
      else if startswith remaining TREE_BRANCH
        then (depth + 1, strip (drop (length TREE_BRANCH) remaining))
      else if startswith remaining TREE_LAST
        then (depth + 1, strip (drop (length TREE_LAST) remaining))
      else if startswith remaining TREE_VERTICAL
        then scan (depth + 1) (drop (length TREE_VERTICAL) remaining)
      else if startswith remaining TREE_SPACE
        then scan (depth + 1) (drop (length TREE_SPACE) remaining)
      else if hd remaining = 32 then scan depth (drop 1 remaining)
      else if hd remaining = 9 then scan (depth + 1) (drop 1 remaining)
      else (let name = strip remaining in if name \<noteq> [] then (0, name) else (0, [])))"
  by pat_completeness auto
termination
  by (relation "measure (\<lambda>(depth, remaining). length remaining)")
     (auto simp: TREE_VERTICAL_def TREE_SPACE_def)

definition parse_line :: "pystr \<Rightarrow> nat \<times> pystr" where
  "parse_line line = scan 0 line"

declare scan.simps [simp del]

section \<open>Nodes and the parser object\<close>

text \<open>
  \<open>TreeNode\<close> objects are mutable and refer to each other (\<open>children\<close>, \<open>parent\<close>), so they
  live in a store. Every node that \<open>parse\<close> creates is appended to \<open>self.all_nodes\<close> at
  once and that list is only ever appended to during the pass; the store is therefore that
  list itself, and a reference to a node is its index in it. \<open>parent = None\<close> is Python's
  \<open>None\<close>.
\<close>

record TreeNode =
  name :: pystr
  is_directory :: bool
  depth :: nat
  children :: "nat list"
  parent :: "nat option"

record TreeParser =
  root :: "nat option"
  all_nodes :: "TreeNode list"

text \<open>\<open>TreeParser.__init__\<close>.\<close>

definition init :: TreeParser where
  "init = \<lparr>root = None, all_nodes = []\<rparr>"

section \<open>\<open>TreeParser.parse\<close>\<close>

text \<open>
  The look-ahead loop of lines 83--88: walk over the lines after the current one, skip those
  that are blank (\<open>not look_ahead.strip()\<close>), and take the depth that \<open>_parse_line\<close> returns
  for the first one that is not; \<open>None\<close> if there is none.
\<close>

fun next_depth :: "pystr list \<Rightarrow> nat option" where
  "next_depth [] = None"
| "next_depth (look_ahead # ls) =
     (if strip look_ahead = [] then next_depth ls else Some (fst (parse_line look_ahead)))"

text \<open>\<open>while len(parent_stack) > depth: parent_stack.pop()\<close>.\<close>

function pop_to :: "nat \<Rightarrow> nat list \<Rightarrow> nat list" where
  "pop_to d stack = (if length stack > d then pop_to d (butlast stack) else stack)"
  by pat_completeness auto
termination
  by (relation "measure (\<lambda>(d, stack). length stack)") auto

declare pop_to.simps [simp del]

text \<open>\<open>node.parent = parent; parent.children.append(node)\<close> for the node \<open>n\<close> and its parent \<open>p\<close>.\<close>

definition attach :: "nat \<Rightarrow> nat \<Rightarrow> TreeNode list \<Rightarrow> TreeNode list" where
  "attach n p ns =
     (let ns1 = ns[n := (ns ! n)\<lparr>parent := Some p\<rparr>]
      in ns1[p := (ns1 ! p)\<lparr>children := children (ns1 ! p) @ [n]\<rparr>])"

text \<open>
  One iteration of the \<open>for line_num, line in enumerate(lines)\<close> loop. \<open>rest\<close> is
  \<open>lines[line_num + 1:]\<close>; the loop state is the parser object and the local \<open>parent_stack\<close>.
  The two \<open>continue\<close> statements leave the state as it is.
\<close>

definition process_line ::
  "nat \<Rightarrow> pystr \<Rightarrow> pystr list \<Rightarrow> TreeParser \<times> nat list \<Rightarrow> TreeParser \<times> nat list" where
  "process_line line_num line rest s =
     (case s of (st, parent_stack) \<Rightarrow>
      if strip line = [] then s
      else (case parse_line line of (d, nm) \<Rightarrow>
        if nm = [] then s
        else
          let is_dir = (if endswith_slash nm then True
                        else (case next_depth rest of None \<Rightarrow> False | Some nd \<Rightarrow> nd > d));
              nm' = (if endswith_slash nm then rstrip_slash nm else nm);
              node = \<lparr>name = nm', is_directory = is_dir, depth = d, children = [], parent = None\<rparr>;
              n = length (all_nodes st);
              st1 = st\<lparr>all_nodes := all_nodes st @ [node]\<rparr>
          in if line_num = 0 \<or> root st1 = None
             then (st1\<lparr>root := Some n\<rparr>, [n])
             else
               let stack1 = pop_to d parent_stack;
                   st2 = (if stack1 \<noteq> []
                          then st1\<lparr>all_nodes := attach n (last stack1) (all_nodes st1)\<rparr>
                          else st1);
                   stack2 = (if length stack1 \<le> d then stack1 @ [n] else stack1[d := n])
               in (st2, stack2)))"

fun parse_loop ::
  "nat \<Rightarrow> pystr list \<Rightarrow> TreeParser \<times> nat list \<Rightarrow> TreeParser \<times> nat list" where
  "parse_loop line_num [] s = s"
| "parse_loop line_num (line # rest) s =
     parse_loop (line_num + 1) rest (process_line line_num line rest s)"

text \<open>
  \<open>parse\<close> returns the updated parser object and the value it returns to the caller
  (\<open>self.root\<close>, or \<open>None\<close>). No statement of \<open>parse\<close> or \<open>_parse_line\<close> can raise: every
  index is guarded, so the model has no error value.
\<close>

definition parse :: "TreeParser \<Rightarrow> pystr \<Rightarrow> TreeParser \<times> nat option" where
  "parse self tree_text =
     (let lines = split_nl (strip tree_text)
      in if lines = [] then (self, None)
         else
           let st = fst (parse_loop 0 lines (self\<lparr>all_nodes := [], root := None\<rparr>, []))
           in (st, root st))"

text \<open>The module-level \<open>parse_tree\<close>: a fresh parser, then \<open>parse\<close>.\<close>

definition parse_tree :: "pystr \<Rightarrow> TreeParser \<times> nat option" where
  "parse_tree tree_text = parse init tree_text"

section \<open>\<open>get_summary\<close>, \<open>get_full_path\<close> and \<open>get_all_paths\<close>\<close>

text \<open>The dictionary \<open>{"total", "directories", "files"}\<close> as a record.\<close>

record summary =
  total :: nat
  directories :: nat
  files :: nat

definition get_summary :: "TreeParser \<Rightarrow> summary" where
  "get_summary self =
     (if all_nodes self = [] then \<lparr>total = 0, directories = 0, files = 0\<rparr>
      else \<lparr>total = length (all_nodes self),
            directories = length (filter is_directory (all_nodes self)),
            files = length (filter (\<lambda>node. \<not> is_directory node) (all_nodes self))\<rparr>)"

text \<open>
  The \<open>while node is not None\<close> loop of \<open>get_full_path\<close> follows \<open>parent\<close> references and
  has no bound of its own, so it is a partial function: \<open>None\<close> is "does not return".
\<close>

partial_function (option) walk_up :: "TreeNode list \<Rightarrow> nat option \<Rightarrow> pystr list \<Rightarrow> pystr list option" where
  "walk_up ns node parts =
     (case node of None \<Rightarrow> Some parts
      | Some n \<Rightarrow> walk_up ns (parent (ns ! n)) (parts @ [name (ns ! n)]))"

declare walk_up.simps [code]

definition get_full_path :: "TreeNode list \<Rightarrow> nat \<Rightarrow> pystr \<Rightarrow> pystr option" where
  "get_full_path ns n base_path =
     (case walk_up ns (Some n) [] of None \<Rightarrow> None
      | Some parts \<Rightarrow>
          Some (if base_path \<noteq> [] then rstrip_slash base_path @ 47 # join_slash (rev parts)
                else join_slash (rev parts)))"

text \<open>
  \<open>_collect_paths\<close> recurses over the \<open>children\<close> references. The first argument is the
  number of nested calls still allowed; running out of it is \<open>None\<close>. The shared \<open>paths\<close>
  list that every call appends to is the concatenation of the results in call order.
\<close>

primrec collect_paths :: "nat \<Rightarrow> TreeNode list \<Rightarrow> pystr \<Rightarrow> nat \<Rightarrow> (pystr \<times> bool) list option" where
  "collect_paths 0 = (\<lambda>ns base_path n. None)"
| "collect_paths (Suc fuel) = (\<lambda>ns base_path n.
     (case get_full_path ns n base_path of None \<Rightarrow> None
      | Some full_path \<Rightarrow>
          (case those (map (collect_paths fuel ns base_path) (children (ns ! n))) of None \<Rightarrow> None
           | Some ps \<Rightarrow> Some ((full_path, is_directory (ns ! n)) # concat ps))))"

text \<open>
  \<open>get_all_paths\<close>; the recursion is given as many nested calls as there are nodes, which
  is enough for every tree over them (\<open>get_all_paths_returns\<close> below).
\<close>

definition get_all_paths :: "TreeParser \<Rightarrow> pystr \<Rightarrow> (pystr \<times> bool) list option" where
  "get_all_paths self base_path =
     (case root self of None \<Rightarrow> Some []
      | Some r \<Rightarrow> collect_paths (length (all_nodes self)) (all_nodes self) base_path r)"

section \<open>Auxiliary notions for the proofs\<close>

text \<open>
  A line gives rise to a node when it passes both \<open>continue\<close> tests of the loop: it is not
  blank and \<open>_parse_line\<close> returns a non-empty name for it.
\<close>

definition named :: "pystr \<Rightarrow> bool" where
  "named line \<longleftrightarrow> strip line \<noteq> [] \<and> snd (parse_line line) \<noteq> []"

text \<open>The node object that lines 78--97 build for a line, given the lines after it.\<close>

definition new_node :: "pystr \<Rightarrow> pystr list \<Rightarrow> TreeNode" where
  "new_node line rest =
     (let d = fst (parse_line line); nm = snd (parse_line line)
      in \<lparr>name = (if endswith_slash nm then rstrip_slash nm else nm),
          is_directory = (if endswith_slash nm then True
                          else (case next_depth rest of None \<Rightarrow> False | Some nd \<Rightarrow> nd > d)),
          depth = d, children = [], parent = None\<rparr>)"

text \<open>The nodes that a list of lines gives rise to, in order, as they are when created.\<close>

fun line_nodes :: "pystr list \<Rightarrow> TreeNode list" where
  "line_nodes [] = []"
| "line_nodes (line # rest) =
     (if named line then new_node line rest # line_nodes rest else line_nodes rest)"

text \<open>The fields of a node that are set once, when it is created.\<close>

definition shape :: "TreeNode \<Rightarrow> pystr \<times> bool \<times> nat" where
  "shape node = (name node, is_directory node, depth node)"

text \<open>
  The store is well linked: the \<open>children\<close> lists and the \<open>parent\<close> references agree,
  children are created after their parent, and a node has no parent exactly when it is the
  first node or has depth 0.
\<close>

definition linked :: "TreeNode list \<Rightarrow> bool" where
  "linked ns \<longleftrightarrow>
     (\<forall>i<length ns.
        (\<forall>c\<in>set (children (ns ! i)). i < c \<and> c < length ns \<and> parent (ns ! c) = Some i) \<and>
        (\<forall>p. parent (ns ! i) = Some p \<longrightarrow> p < i) \<and>
        ((parent (ns ! i) = None) = (i = 0 \<or> depth (ns ! i) = 0)))"

text \<open>
  The invariant of the \<open>for\<close> loop at line number \<open>k\<close>, on the parser object and the
  parent stack: the store is well linked, the stack refers to existing nodes, and as soon as
  there is a node the root is the first node, the stack is not empty and the first line is
  past.
\<close>

definition inv :: "nat \<Rightarrow> TreeParser \<times> nat list \<Rightarrow> bool" where
  "inv k s \<longleftrightarrow>
     linked (all_nodes (fst s)) \<and> (\<forall>x\<in>set (snd s). x < length (all_nodes (fst s))) \<and>
     (if all_nodes (fst s) = [] then root (fst s) = None \<and> snd s = []
      else root (fst s) = Some 0 \<and> snd s \<noteq> [] \<and> k \<noteq> 0)"








section \<open>Example inputs\<close>

text \<open>
  The first concrete scenario of the specification, four lines joined by U+000A, first as a
  user would paste it (with the box-drawing characters that \<open>utils.py\<close> emits), then with the
  tokens that \<open>const.py\<close> defines.
\<close>

definition scenario1 :: pystr where
  "scenario1 = ascii ''project/'' @ 10 # BOX_BRANCH @ ascii ''src/'' @ 10 #
     BOX_VERTICAL @ BOX_LAST @ ascii ''main.py'' @ 10 # BOX_LAST @ ascii ''README.md''"

definition scenario1_const :: pystr where
  "scenario1_const = ascii ''project/'' @ 10 # TREE_BRANCH @ ascii ''src/'' @ 10 #
     TREE_VERTICAL @ TREE_LAST @ ascii ''main.py'' @ 10 # TREE_LAST @ ascii ''README.md''"

section \<open>Evaluation rules and basic facts\<close>

lemmas str_defs = ascii_def strip_def lstrip_def rstrip_def isspace_def rstrip_slash_def
  startswith_def endswith_slash_def TREE_BRANCH_def TREE_LAST_def TREE_VERTICAL_def
  TREE_SPACE_def BOX_BRANCH_def BOX_LAST_def BOX_VERTICAL_def

lemmas parse_defs = parse_tree_def parse_def init_def process_line_def parse_line_def
  scan.simps pop_to.simps attach_def Let_def

lemmas path_defs = get_all_paths_def get_full_path_def walk_up.simps get_summary_def

lemmas eval_defs = str_defs parse_defs path_defs named_def scenario1_def scenario1_const_def

lemma split_nl_not_Nil: "split_nl s \<noteq> []"
  by (induction s) (auto split: list.splits)

text \<open>The \<open>while\<close> loop that pops the stack cuts it down to its first \<open>d\<close> entries.\<close>

lemma pop_to_take: "pop_to d stack = take d stack"
proof (induction d stack rule: pop_to.induct)
  case (1 d stack)
  show ?case
  proof (cases "length stack > d")
    case True
    then have "pop_to d stack = take d (butlast stack)"
      using 1 by (simp add: pop_to.simps)
    also have "\<dots> = take d stack"
      using True by (simp add: take_butlast)
    finally show ?thesis .
  next
    case False
    then show ?thesis by (simp add: pop_to.simps)
  qed
qed

lemma length_attach [simp]: "length (attach n p ns) = length ns"
  by (simp add: attach_def Let_def)

lemma attach_Nil_iff [simp]: "attach n p ns = [] \<longleftrightarrow> ns = []"
  using length_attach [of n p ns] by (metis length_0_conv)

subsection \<open>What \<open>_parse_line\<close> does at each position, with the tokens of \<open>const.py\<close>\<close>

lemma startswith_hd: "startswith r p \<Longrightarrow> p \<noteq> [] \<Longrightarrow> r \<noteq> [] \<and> hd r = hd p"
  unfolding startswith_def by (cases r; cases p) auto

lemma scan_end: "scan d [] = (0, [])"
  by (simp add: scan.simps)

lemma scan_branch:
  "startswith r TREE_BRANCH \<Longrightarrow> scan d r = (d + 1, strip (drop (length TREE_BRANCH) r))"
  using startswith_hd [of r TREE_BRANCH]
  by (subst scan.simps) (simp add: TREE_BRANCH_def)

lemma scan_last:
  "\<not> startswith r TREE_BRANCH \<Longrightarrow> startswith r TREE_LAST \<Longrightarrow>
   scan d r = (d + 1, strip (drop (length TREE_LAST) r))"
  using startswith_hd [of r TREE_LAST]
  by (subst scan.simps) (simp add: TREE_LAST_def)

lemma scan_vertical:
  "\<not> startswith r TREE_BRANCH \<Longrightarrow> \<not> startswith r TREE_LAST \<Longrightarrow> startswith r TREE_VERTICAL \<Longrightarrow>
   scan d r = scan (d + 1) (drop (length TREE_VERTICAL) r)"
  using startswith_hd [of r TREE_VERTICAL]
  by (subst scan.simps) (simp add: TREE_VERTICAL_def)

lemma scan_space4:
  assumes "startswith r TREE_SPACE"
  shows "scan d r = scan (d + 1) (drop (length TREE_SPACE) r)"
proof -
  have r: "r \<noteq> []" and h: "hd r = 32"
    using startswith_hd [OF assms] by (simp_all add: TREE_SPACE_def)
  have "\<not> startswith r TREE_BRANCH" "\<not> startswith r TREE_LAST" "\<not> startswith r TREE_VERTICAL"
    using h startswith_hd [of r TREE_BRANCH] startswith_hd [of r TREE_LAST]
      startswith_hd [of r TREE_VERTICAL]
    by (auto simp: TREE_BRANCH_def TREE_LAST_def TREE_VERTICAL_def)
  then show ?thesis
    using r assms by (subst scan.simps) simp
qed

lemma hd_space_no_glyph_token:
  assumes "hd r = 32 \<or> hd r = 9"
  shows "\<not> startswith r TREE_BRANCH" "\<not> startswith r TREE_LAST" "\<not> startswith r TREE_VERTICAL"
  using assms startswith_hd [of r TREE_BRANCH] startswith_hd [of r TREE_LAST]
    startswith_hd [of r TREE_VERTICAL]
  by (auto simp: TREE_BRANCH_def TREE_LAST_def TREE_VERTICAL_def)

lemma scan_space1:
  "r \<noteq> [] \<Longrightarrow> hd r = 32 \<Longrightarrow> \<not> startswith r TREE_SPACE \<Longrightarrow> scan d r = scan d (tl r)"
  using hd_space_no_glyph_token [of r]
  by (subst scan.simps) (simp add: drop_Suc)

lemma scan_tab:
  assumes "r \<noteq> []" "hd r = 9"
  shows "scan d r = scan (d + 1) (tl r)"
proof -
  have "\<not> startswith r TREE_SPACE"
    using assms startswith_hd [of r TREE_SPACE] by (auto simp: TREE_SPACE_def)
  then show ?thesis
    using assms hd_space_no_glyph_token [of r]
    by (subst scan.simps) (simp add: drop_Suc)
qed

lemma scan_plain:
  assumes "r \<noteq> []" "\<not> startswith r TREE_BRANCH" "\<not> startswith r TREE_LAST"
    "\<not> startswith r TREE_VERTICAL" "hd r \<noteq> 32" "hd r \<noteq> 9"
  shows "scan d r = (0, strip r)"
proof -
  have "\<not> startswith r TREE_SPACE"
    using assms startswith_hd [of r TREE_SPACE] by (auto simp: TREE_SPACE_def)
  then show ?thesis
    using assms by (subst scan.simps) (simp add: Let_def)
qed

subsection \<open>A failed parse leaves an empty parser\<close>

lemma process_line_root_iff:
  assumes "root (fst s) = None \<longleftrightarrow> all_nodes (fst s) = []"
  shows "root (fst (process_line k l rest s)) = None \<longleftrightarrow>
         all_nodes (fst (process_line k l rest s)) = []"
  using assms
  by (cases s) (auto simp: process_line_def Let_def split: prod.splits)

lemma parse_loop_root_iff:
  "(root (fst s) = None \<longleftrightarrow> all_nodes (fst s) = []) \<Longrightarrow>
   (root (fst (parse_loop k ls s)) = None \<longleftrightarrow> all_nodes (fst (parse_loop k ls s)) = [])"
proof (induction ls arbitrary: k s)
  case Nil
  then show ?case by simp
next
  case (Cons l ls)
  show ?case
    unfolding parse_loop.simps
    by (rule Cons.IH) (rule process_line_root_iff [OF Cons.prems])
qed

lemma parse_None_state:
  assumes "parse self text = (st, None)"
  shows "root st = None \<and> all_nodes st = []"
proof -
  let ?s0 = "(self\<lparr>all_nodes := [], root := None\<rparr>, [] :: nat list)"
  let ?lines = "split_nl (strip text)"
  have st: "st = fst (parse_loop 0 ?lines ?s0)" and r: "root st = None"
    using assms by (auto simp: parse_def Let_def split_nl_not_Nil)
  have "root (fst (parse_loop 0 ?lines ?s0)) = None \<longleftrightarrow>
        all_nodes (fst (parse_loop 0 ?lines ?s0)) = []"
    by (rule parse_loop_root_iff) simp
  with st r show ?thesis by simp
qed

subsection \<open>One iteration of the loop, case by case\<close>

lemma process_line_skip: "\<not> named line \<Longrightarrow> process_line k line rest s = s"
  by (cases s) (auto simp: process_line_def named_def split: prod.splits)

lemma process_line_first:
  assumes "named line" "k = 0 \<or> root st = None"
  shows "process_line k line rest (st, stack) =
         (st\<lparr>all_nodes := all_nodes st @ [new_node line rest], root := Some (length (all_nodes st))\<rparr>,
          [length (all_nodes st)])"
  using assms
  by (cases "parse_line line") (auto simp: process_line_def named_def new_node_def Let_def)

lemma process_line_later:
  assumes "named line" "k \<noteq> 0" "root st \<noteq> None"
  shows "process_line k line rest (st, stack) =
         (let node = new_node line rest; n = length (all_nodes st);
              stack1 = take (depth node) stack
          in (st\<lparr>all_nodes := (if stack1 \<noteq> [] then attach n (last stack1) (all_nodes st @ [node])
                                else all_nodes st @ [node])\<rparr>,
              stack1 @ [n]))"
  using assms
  by (cases "parse_line line")
     (auto simp: process_line_def named_def new_node_def Let_def pop_to_take)

subsection \<open>Name, classification and depth of a node never change after its creation\<close>

lemma shape_attach: "map shape (attach n p ns) = map shape ns"
proof -
  have upd: "map shape (xs[i := x]) = map shape xs" if "shape x = shape (xs ! i)" for xs i x
  proof (cases "i < length xs")
    case True
    with that show ?thesis by (simp add: map_update list_update_same_conv)
  next
    case False
    then have "length xs \<le> i" by simp
    then show ?thesis by (simp add: list_update_beyond)
  qed
  show ?thesis
    unfolding attach_def Let_def
    by (cases "n < length ns"; cases "p < length ns")
       (simp_all add: upd shape_def nth_list_update)
qed

lemma shape_process_line:
  "map shape (all_nodes (fst (process_line k line rest (st, stack)))) =
   map shape (all_nodes st) @ (if named line then [shape (new_node line rest)] else [])"
proof (cases "named line")
  case False
  then show ?thesis by (simp add: process_line_skip)
next
  case True
  show ?thesis
  proof (cases "k = 0 \<or> root st = None")
    case first: True
    show ?thesis
      using True by (simp add: process_line_first [OF True first])
  next
    case False
    then have "k \<noteq> 0" "root st \<noteq> None" by auto
    from process_line_later [OF True this] True show ?thesis
      by (simp add: Let_def shape_attach)
  qed
qed

lemma shape_parse_loop:
  "map shape (all_nodes (fst (parse_loop k ls s))) =
   map shape (all_nodes (fst s)) @ map shape (line_nodes ls)"
proof (induction ls arbitrary: k s)
  case Nil
  then show ?case by simp
next
  case (Cons l ls)
  obtain st stack where s: "s = (st, stack)" by (cases s)
  show ?case
    unfolding parse_loop.simps Cons.IH s
    by (simp add: shape_process_line)
qed

text \<open>
  The nodes of a parse are, in order and in name, classification and depth, the nodes of the
  lines of the trimmed text.
\<close>

lemma parse_state:
  "fst (parse self text) =
   fst (parse_loop 0 (split_nl (strip text)) (self\<lparr>all_nodes := [], root := None\<rparr>, []))"
  "snd (parse self text) = root (fst (parse self text))"
  by (simp_all add: parse_def Let_def split_nl_not_Nil)

lemma shape_parse:
  "map shape (all_nodes (fst (parse self text))) = map shape (line_nodes (split_nl (strip text)))"
  by (simp add: parse_state shape_parse_loop)

lemma length_line_nodes: "length (line_nodes ls) = length (filter named ls)"
  by (induction ls) simp_all

lemma length_parse:
  "length (all_nodes (fst (parse self tree_text))) = length (filter named (split_nl (strip tree_text)))"
proof -
  have "length (map shape (all_nodes (fst (parse self tree_text)))) =
        length (map shape (line_nodes (split_nl (strip tree_text))))"
    by (simp only: shape_parse)
  then show ?thesis
    by (simp add: length_line_nodes)
qed

subsection \<open>The store stays well linked\<close>

lemma nth_attach:
  assumes "p < n" "n < length ns" "i < length ns"
  shows "attach n p ns ! i =
         (if i = p then (ns ! p)\<lparr>children := children (ns ! p) @ [n]\<rparr>
          else if i = n then (ns ! n)\<lparr>parent := Some p\<rparr> else ns ! i)"
  using assms by (simp add: attach_def Let_def nth_list_update)

lemma linkedI:
  assumes "\<And>i c. i < length ns \<Longrightarrow> c \<in> set (children (ns ! i)) \<Longrightarrow>
             i < c \<and> c < length ns \<and> parent (ns ! c) = Some i"
    and "\<And>i p. i < length ns \<Longrightarrow> parent (ns ! i) = Some p \<Longrightarrow> p < i"
    and "\<And>i. i < length ns \<Longrightarrow> (parent (ns ! i) = None) = (i = 0 \<or> depth (ns ! i) = 0)"
  shows "linked ns"
  unfolding linked_def
proof (intro allI impI conjI ballI)
  fix i c assume "i < length ns" "c \<in> set (children (ns ! i))"
  from assms(1) [OF this] show "i < c" "c < length ns" "parent (ns ! c) = Some i" by simp_all
next
  fix i p assume "i < length ns" "parent (ns ! i) = Some p"
  from assms(2) [OF this] show "p < i" .
next
  fix i assume "i < length ns"
  from assms(3) [OF this] show "(parent (ns ! i) = None) = (i = 0 \<or> depth (ns ! i) = 0)" .
qed

lemma linkedD:
  assumes "linked ns" "i < length ns"
  shows "c \<in> set (children (ns ! i)) \<Longrightarrow> i < c \<and> c < length ns \<and> parent (ns ! c) = Some i"
    and "parent (ns ! i) = Some p \<Longrightarrow> p < i"
    and "(parent (ns ! i) = None) = (i = 0 \<or> depth (ns ! i) = 0)"
proof -
  from assms have *: "(\<forall>c\<in>set (children (ns ! i)). i < c \<and> c < length ns \<and> parent (ns ! c) = Some i) \<and>
        (\<forall>p. parent (ns ! i) = Some p \<longrightarrow> p < i) \<and>
        ((parent (ns ! i) = None) = (i = 0 \<or> depth (ns ! i) = 0))"
    unfolding linked_def by (elim allE [of _ i] impE) assumption+
  from * show "c \<in> set (children (ns ! i)) \<Longrightarrow> i < c \<and> c < length ns \<and> parent (ns ! c) = Some i"
    by simp
  from * show "parent (ns ! i) = Some p \<Longrightarrow> p < i" by simp
  from * show "(parent (ns ! i) = None) = (i = 0 \<or> depth (ns ! i) = 0)" by simp
qed

lemma linked_single: "children node = [] \<Longrightarrow> parent node = None \<Longrightarrow> linked [node]"
  by (simp add: linked_def)

lemma linked_orphan:
  assumes "linked ns" "children node = []" "parent node = None" "depth node = 0"
  shows "linked (ns @ [node])"
proof (rule linkedI)
  fix i c assume i: "i < length (ns @ [node])" and c: "c \<in> set (children ((ns @ [node]) ! i))"
  from c assms(2) have lt: "i < length ns"
    using i by (cases "i = length ns") auto
  with c have "c \<in> set (children (ns ! i))" by (simp add: nth_append)
  from linkedD(1) [OF assms(1) lt this] lt
  show "i < c \<and> c < length (ns @ [node]) \<and> parent ((ns @ [node]) ! c) = Some i"
    by (simp add: nth_append)
next
  fix i p assume i: "i < length (ns @ [node])" and p: "parent ((ns @ [node]) ! i) = Some p"
  from p assms(3) have lt: "i < length ns"
    using i by (cases "i = length ns") auto
  with p have "parent (ns ! i) = Some p" by (simp add: nth_append)
  from linkedD(2) [OF assms(1) lt this] show "p < i" .
next
  fix i assume i: "i < length (ns @ [node])"
  show "(parent ((ns @ [node]) ! i) = None) = (i = 0 \<or> depth ((ns @ [node]) ! i) = 0)"
  proof (cases "i = length ns")
    case True
    then show ?thesis using assms(3,4) by simp
  next
    case False
    with i have lt: "i < length ns" by simp
    from linkedD(3) [OF assms(1) lt] lt show ?thesis by (simp add: nth_append)
  qed
qed

lemma linked_attach:
  assumes "linked ns" "p < length ns" "children node = []" "depth node \<noteq> 0"
  shows "linked (attach (length ns) p (ns @ [node]))"
proof (rule linkedI)
  let ?n = "length ns"
  let ?ns' = "attach ?n p (ns @ [node])"
  have nth: "?ns' ! i = (if i = p then (ns ! p)\<lparr>children := children (ns ! p) @ [?n]\<rparr>
          else if i = ?n then node\<lparr>parent := Some p\<rparr> else ns ! i)" if "i \<le> ?n" for i
  proof -
    from that have "i < length (ns @ [node])" by simp
    from nth_attach [OF assms(2) _ this] that assms(2) show ?thesis
      by (simp add: nth_append)
  qed
  have par: "parent (?ns' ! c) = parent (ns ! c)" if "c < ?n" for c
    using that nth [of c] by simp
  have dep: "depth (?ns' ! c) = depth (ns ! c)" if "c < ?n" for c
    using that nth [of c] by simp
  {
    fix i c assume i: "i < length ?ns'" and c: "c \<in> set (children (?ns' ! i))"
    have ne: "i \<noteq> ?n"
    proof
      assume "i = ?n"
      with nth [of ?n] assms(2,3) c show False by simp
    qed
    with i have lt: "i < ?n" by simp
    show "i < c \<and> c < length ?ns' \<and> parent (?ns' ! c) = Some i"
    proof (cases "c = ?n \<and> i = p")
      case True
      then show ?thesis using assms(2) nth [of ?n] by simp
    next
      case False
      have "c \<in> set (children (ns ! i))"
      proof (cases "i = p")
        case True
        with c nth [of p] assms(2) False show ?thesis by simp
      next
        case False
        with c nth [of i] lt show ?thesis by simp
      qed
      from linkedD(1) [OF assms(1) lt this] par [of c] show ?thesis by simp
    qed
  next
    fix i q assume i: "i < length ?ns'" and q: "parent (?ns' ! i) = Some q"
    show "q < i"
    proof (cases "i = ?n")
      case True
      with q nth [of ?n] assms(2) show ?thesis by simp
    next
      case False
      with i have lt: "i < ?n" by simp
      with q par [of i] have "parent (ns ! i) = Some q" by simp
      from linkedD(2) [OF assms(1) lt this] show ?thesis .
    qed
  next
    fix i assume i: "i < length ?ns'"
    show "(parent (?ns' ! i) = None) = (i = 0 \<or> depth (?ns' ! i) = 0)"
    proof (cases "i = ?n")
      case True
      have "ns \<noteq> []" using assms(2) by auto
      with True nth [of ?n] assms(2,4) show ?thesis by simp
    next
      case False
      with i have lt: "i < ?n" by simp
      from linkedD(3) [OF assms(1) lt] par [OF lt] dep [OF lt] show ?thesis by simp
    qed
  }
qed

lemma inv_process_line:
  assumes "inv k s"
  shows "inv (Suc k) (process_line k line rest s)"
proof (cases "named line")
  case False
  then show ?thesis using assms by (auto simp: process_line_skip inv_def)
next
  case True
  obtain st stack where s: "s = (st, stack)" by (cases s)
  have nn: "children (new_node line rest) = []" "parent (new_node line rest) = None"
    by (simp_all add: new_node_def Let_def)
  show ?thesis
  proof (cases "all_nodes st = []")
    case empty: True
    then have "k = 0 \<or> root st = None" using assms s by (simp add: inv_def)
    from process_line_first [OF True this] empty nn show ?thesis
      by (simp add: s inv_def linked_single)
  next
    case False
    then have k: "k \<noteq> 0" "root st \<noteq> None" and r: "root st = Some 0" and st: "stack \<noteq> []"
      and wf: "linked (all_nodes st)" and bound: "\<forall>x\<in>set stack. x < length (all_nodes st)"
      using assms s by (simp_all add: inv_def)
    let ?node = "new_node line rest"
    let ?stack1 = "take (depth ?node) stack"
    show ?thesis
    proof (cases "depth ?node = 0")
      case True
      then have eq: "process_line k line rest (st, stack) =
          (st\<lparr>all_nodes := all_nodes st @ [?node]\<rparr>, [length (all_nodes st)])"
        using process_line_later [OF \<open>named line\<close> k, of rest stack] by (simp add: Let_def)
      from True wf nn have "linked (all_nodes st @ [?node])" by (simp add: linked_orphan)
      then show ?thesis
        using r by (simp add: s eq inv_def)
    next
      case d: False
      then have ne: "?stack1 \<noteq> []" using st by simp
      then have eq: "process_line k line rest (st, stack) =
          (st\<lparr>all_nodes := attach (length (all_nodes st)) (last ?stack1) (all_nodes st @ [?node])\<rparr>,
           ?stack1 @ [length (all_nodes st)])"
        using process_line_later [OF \<open>named line\<close> k, of rest stack] d st by (simp add: Let_def)
      have "last ?stack1 \<in> set stack"
        using ne by (meson in_set_takeD last_in_set)
      then have p: "last ?stack1 < length (all_nodes st)" using bound by simp
      have "linked (attach (length (all_nodes st)) (last ?stack1) (all_nodes st @ [?node]))"
        by (rule linked_attach [OF wf p nn(1) d])
      moreover have "\<forall>x\<in>set ?stack1. x < Suc (length (all_nodes st))"
        using bound by (meson in_set_takeD less_Suc_eq)
      ultimately show ?thesis
        using r False by (simp add: s eq inv_def)
    qed
  qed
qed

lemma inv_parse_loop: "inv k s \<Longrightarrow> inv (k + length ls) (parse_loop k ls s)"
proof (induction ls arbitrary: k s)
  case Nil
  then show ?case by simp
next
  case (Cons l ls)
  from Cons.IH [OF inv_process_line [OF Cons.prems]] show ?case by simp
qed

lemma linked_parse: "linked (all_nodes (fst (parse self tree_text)))"
proof -
  have "inv 0 (self\<lparr>all_nodes := [], root := None\<rparr>, [])"
    by (simp add: inv_def linked_def)
  from inv_parse_loop [OF this] show ?thesis
    by (simp add: parse_state inv_def)
qed

lemma root_parse:
  "snd (parse self tree_text) = (if all_nodes (fst (parse self tree_text)) = [] then None else Some 0)"
proof -
  have "inv 0 (self\<lparr>all_nodes := [], root := None\<rparr>, [])"
    by (simp add: inv_def linked_def)
  from inv_parse_loop [OF this, of "split_nl (strip tree_text)"] show ?thesis
    by (simp add: parse_state inv_def split: if_splits)
qed

subsection \<open>On well-nested input every node is one level below its parent\<close>



lemma depth_new_node [simp]: "depth (new_node line rest) = fst (parse_line line)"
  by (simp add: new_node_def Let_def)

lemma depth_line_nodes:
  "map depth (line_nodes ls) = map (\<lambda>l. fst (parse_line l)) (filter named ls)"
  by (induction ls) simp_all







subsection \<open>\<open>get_full_path\<close> and \<open>get_all_paths\<close> return on every parsed tree\<close>






subsection \<open>The last line of a trimmed text always yields a name\<close>

lemma strip_eq_Nil_iff: "strip s = [] \<longleftrightarrow> (\<forall>c\<in>set s. isspace c)"
proof
  assume "strip s = []"
  then have "\<forall>c\<in>set (dropWhile isspace s). isspace c"
    by (simp add: strip_def rstrip_def lstrip_def dropWhile_eq_Nil_conv)
  then have "dropWhile isspace s = []"
    by (metis hd_dropWhile hd_in_set)
  then show "\<forall>c\<in>set s. isspace c"
    by (simp add: dropWhile_eq_Nil_conv)
next
  assume "\<forall>c\<in>set s. isspace c"
  then have "dropWhile isspace s = []"
    by (simp add: dropWhile_eq_Nil_conv)
  then show "strip s = []"
    unfolding strip_def rstrip_def lstrip_def by (simp del: dropWhile_eq_Nil_conv)
qed

lemma last_strip: "strip s \<noteq> [] \<Longrightarrow> \<not> isspace (last (strip s))"
proof -
  assume a: "strip s \<noteq> []"
  let ?t = "dropWhile isspace (rev (lstrip s))"
  from a have t: "?t \<noteq> []" by (simp add: strip_def rstrip_def)
  then have "\<not> isspace (hd ?t)" by (rule hd_dropWhile)
  moreover have "last (strip s) = hd ?t"
    using t by (simp add: strip_def rstrip_def last_rev)
  ultimately show ?thesis by simp
qed

lemma strip_nonempty: "r \<noteq> [] \<Longrightarrow> \<not> isspace (last r) \<Longrightarrow> strip r \<noteq> []"
  using strip_eq_Nil_iff [of r] last_in_set [of r] by blast

lemma last_split_nl:
  "s \<noteq> [] \<Longrightarrow> last s \<noteq> 10 \<Longrightarrow> last (split_nl s) \<noteq> [] \<and> last (last (split_nl s)) = last s"
proof (induction s)
  case Nil
  then show ?case by simp
next
  case (Cons c cs)
  show ?case
  proof (cases "cs = []")
    case True
    with Cons.prems show ?thesis by simp
  next
    case False
    with Cons.prems have "last cs \<noteq> 10" by simp
    from Cons.IH [OF False this] have ih: "last (split_nl cs) \<noteq> []"
      "last (last (split_nl cs)) = last cs" by simp_all
    obtain l ls where sp: "split_nl cs = l # ls"
      using split_nl_not_Nil [of cs] by (cases "split_nl cs") auto
    show ?thesis
      using ih False sp by (cases "ls = []") (auto split: if_splits)
  qed
qed

lemma drop_token:
  assumes "startswith r t" "isspace (last t)" "r \<noteq> []" "\<not> isspace (last r)"
  shows "drop (length t) r \<noteq> [] \<and> last (drop (length t) r) = last r"
proof -
  have "length t < length r"
  proof (rule ccontr)
    assume "\<not> length t < length r"
    then have "take (length t) r = r" by simp
    with assms(1) have "r = t" by (simp add: startswith_def)
    with assms(2,4) show False by simp
  qed
  then show ?thesis by simp
qed

lemma isspace_simps [simp]: "isspace 32" "isspace 9" "isspace 10"
  by (simp_all add: isspace_def)

lemma token_last_space:
  "isspace (last TREE_BRANCH)" "isspace (last TREE_LAST)"
  "isspace (last TREE_VERTICAL)" "isspace (last TREE_SPACE)"
  by (simp_all add: TREE_BRANCH_def TREE_LAST_def TREE_VERTICAL_def TREE_SPACE_def)

lemma drop_token_nonspace:
  assumes "startswith r t" "isspace (last t)" "r \<noteq> []" "\<not> isspace (last r)"
  shows "drop (length t) r \<noteq> []" "\<not> isspace (last (drop (length t) r))"
  using drop_token [OF assms] assms(4) by simp_all

lemma scan_name_nonempty:
  "r \<noteq> [] \<Longrightarrow> \<not> isspace (last r) \<Longrightarrow> snd (scan d r) \<noteq> []"
proof (induction d r rule: scan.induct)
  case (1 depth remaining)
  note ne = \<open>remaining \<noteq> []\<close> and ns = \<open>\<not> isspace (last remaining)\<close>
  have tl: "tl remaining \<noteq> [] \<and> last (tl remaining) = last remaining"
    if "hd remaining = 32 \<or> hd remaining = 9"
  proof -
    have "length remaining \<noteq> 1"
    proof
      assume "length remaining = 1"
      then have "last remaining = hd remaining" by (cases remaining) auto
      with that ns show False by auto
    qed
    with ne show ?thesis by (cases remaining) auto
  qed
  show ?case
  proof (cases "startswith remaining TREE_BRANCH")
    case True
    have "strip (drop (length TREE_BRANCH) remaining) \<noteq> []"
      by (rule strip_nonempty [OF drop_token_nonspace [OF True token_last_space(1) ne ns]])
    then show ?thesis by (simp add: scan_branch [OF True])
  next
    case nb: False
    show ?thesis
    proof (cases "startswith remaining TREE_LAST")
      case True
      have "strip (drop (length TREE_LAST) remaining) \<noteq> []"
        by (rule strip_nonempty [OF drop_token_nonspace [OF True token_last_space(2) ne ns]])
      then show ?thesis by (simp add: scan_last [OF nb True])
    next
      case nl: False
      show ?thesis
      proof (cases "startswith remaining TREE_VERTICAL")
        case True
        note d = drop_token_nonspace [OF True token_last_space(3) ne ns]
        from "1.IH"(1) [OF ne nb nl True d] show ?thesis
          by (simp add: scan_vertical [OF nb nl True])
      next
        case nv: False
        show ?thesis
        proof (cases "startswith remaining TREE_SPACE")
          case True
          note d = drop_token_nonspace [OF True token_last_space(4) ne ns]
          from "1.IH"(2) [OF ne nb nl nv True d] show ?thesis
            by (simp add: scan_space4 [OF True])
        next
          case n4: False
          show ?thesis
          proof (cases "hd remaining = 32")
            case True
            with tl ns have d: "drop 1 remaining \<noteq> []" "\<not> isspace (last (drop 1 remaining))"
              by (simp_all add: drop_Suc)
            from "1.IH"(3) [OF ne nb nl nv n4 True d] show ?thesis
              by (simp add: scan_space1 [OF ne True n4] drop_Suc)
          next
            case n1: False
            show ?thesis
            proof (cases "hd remaining = 9")
              case True
              with tl ns have d: "drop 1 remaining \<noteq> []" "\<not> isspace (last (drop 1 remaining))"
                by (simp_all add: drop_Suc)
              from "1.IH"(4) [OF ne nb nl nv n4 n1 True d] show ?thesis
                by (simp add: scan_tab [OF ne True] drop_Suc)
            next
              case False
              from scan_plain [OF ne nb nl nv n1 False] strip_nonempty [OF ne ns]
              show ?thesis by simp
            qed
          qed
        qed
      qed
    qed
  qed
qed

lemma named_last_line:
  assumes "strip tree_text \<noteq> []"
  shows "named (last (split_nl (strip tree_text)))"
proof -
  let ?s = "strip tree_text"
  have ns: "\<not> isspace (last ?s)" by (rule last_strip [OF assms])
  then have "last ?s \<noteq> 10" by auto
  from last_split_nl [OF assms this] ns
  have l: "last (split_nl ?s) \<noteq> []" "\<not> isspace (last (last (split_nl ?s)))" by simp_all
  from strip_nonempty [OF l] scan_name_nonempty [OF l] show ?thesis
    by (simp add: named_def parse_line_def)
qed

lemma parse_None_iff_no_named_line:
  "snd (parse self tree_text) = None \<longleftrightarrow> filter named (split_nl (strip tree_text)) = []"
proof -
  have "all_nodes (fst (parse self tree_text)) = [] \<longleftrightarrow>
        filter named (split_nl (strip tree_text)) = []"
    using length_parse [of self tree_text] by (metis length_0_conv)
  then show ?thesis
    using root_parse [of self tree_text] by (simp split: if_splits)
qed

lemma parse_None_iff_blank:
  "snd (parse self tree_text) = None \<longleftrightarrow> strip tree_text = []"
proof
  assume n: "snd (parse self tree_text) = None"
  show "strip tree_text = []"
  proof (rule ccontr)
    assume a: "strip tree_text \<noteq> []"
    have "last (split_nl (strip tree_text)) \<in> set (split_nl (strip tree_text))"
      by (simp add: split_nl_not_Nil)
    with named_last_line [OF a] have "filter named (split_nl (strip tree_text)) \<noteq> []"
      by (auto simp: filter_empty_conv)
    with n show False by (simp add: parse_None_iff_no_named_line)
  qed
next
  assume "strip tree_text = []"
  moreover have "\<not> named []"
    by (simp add: named_def strip_def lstrip_def rstrip_def)
  ultimately have "filter named (split_nl (strip tree_text)) = []"
    by simp
  then show "snd (parse self tree_text) = None"
    by (simp add: parse_None_iff_no_named_line)
qed

subsection \<open>Names, depths and classification of the nodes, line by line\<close>

lemma rstrip_slash_id: "\<not> endswith_slash s \<Longrightarrow> rstrip_slash s = s"
proof (cases "s = []")
  case True
  then show ?thesis by (simp add: rstrip_slash_def)
next
  case False
  assume "\<not> endswith_slash s"
  with False have "hd (rev s) \<noteq> 47" by (simp add: endswith_slash_def hd_rev)
  with False have "dropWhile (\<lambda>c. c = 47) (rev s) = rev s"
    by (cases "rev s") auto
  then show ?thesis by (simp add: rstrip_slash_def)
qed

lemma not_endswith_slash_rstrip: "\<not> endswith_slash (rstrip_slash s)"
proof
  assume a: "endswith_slash (rstrip_slash s)"
  let ?t = "dropWhile (\<lambda>c. c = 47) (rev s)"
  from a have t: "?t \<noteq> []" by (simp add: endswith_slash_def rstrip_slash_def)
  then have "hd ?t \<noteq> 47" using hd_dropWhile [of "\<lambda>c. c = 47" "rev s"] by simp
  moreover from a t have "hd ?t = 47"
    by (simp add: endswith_slash_def rstrip_slash_def last_rev)
  ultimately show False by simp
qed

lemma name_new_node: "name (new_node line rest) = rstrip_slash (snd (parse_line line))"
  by (simp add: new_node_def Let_def rstrip_slash_id)

lemma name_line_nodes:
  "map name (line_nodes ls) = map (\<lambda>l. rstrip_slash (snd (parse_line l))) (filter named ls)"
  by (induction ls) (simp_all add: name_new_node)

lemma map_shape_eq:
  assumes "map shape xs = map shape ys"
  shows "map name xs = map name ys" "map depth xs = map depth ys"
    "map is_directory xs = map is_directory ys"
proof -
  have "map (fst \<circ> shape) xs = map (fst \<circ> shape) ys"
       "map (snd \<circ> snd \<circ> shape) xs = map (snd \<circ> snd \<circ> shape) ys"
       "map (fst \<circ> snd \<circ> shape) xs = map (fst \<circ> snd \<circ> shape) ys"
    using assms by (metis map_map)+
  then show "map name xs = map name ys" "map depth xs = map depth ys"
    "map is_directory xs = map is_directory ys"
    by (simp_all add: comp_def shape_def)
qed

lemma names_parse:
  "map name (all_nodes (fst (parse self tree_text))) =
   map (\<lambda>l. rstrip_slash (snd (parse_line l))) (filter named (split_nl (strip tree_text)))"
  using map_shape_eq(1) [OF shape_parse] by (simp add: name_line_nodes)

lemma depths_parse:
  "map depth (all_nodes (fst (parse self tree_text))) =
   map (\<lambda>l. fst (parse_line l)) (filter named (split_nl (strip tree_text)))"
  using map_shape_eq(2) [OF shape_parse] by (simp add: depth_line_nodes)

lemma next_depth_dropWhile:
  "next_depth ls = (case dropWhile (\<lambda>l. strip l = []) ls of [] \<Rightarrow> None
                    | l # _ \<Rightarrow> Some (fst (parse_line l)))"
  by (induction ls) simp_all

lemma line_nodes_nth:
  "i < length ls \<Longrightarrow> named (ls ! i) \<Longrightarrow>
   line_nodes ls ! length (filter named (take i ls)) = new_node (ls ! i) (drop (Suc i) ls)"
proof (induction ls arbitrary: i)
  case Nil
  then show ?case by simp
next
  case (Cons l ls)
  show ?case
  proof (cases i)
    case 0
    with Cons.prems show ?thesis by simp
  next
    case (Suc j)
    with Cons.prems have "j < length ls" "named (ls ! j)" by simp_all
    from Cons.IH [OF this] Suc show ?thesis by simp
  qed
qed

lemma node_index_bound:
  "i < length ls \<Longrightarrow> named (ls ! i) \<Longrightarrow> length (filter named (take i ls)) < length (filter named ls)"
proof -
  assume a: "i < length ls" "named (ls ! i)"
  have "ls = take i ls @ ls ! i # drop (Suc i) ls"
    using a(1) by (simp add: id_take_nth_drop)
  then have "filter named ls = filter named (take i ls) @ filter named (ls ! i # drop (Suc i) ls)"
    by (metis filter_append)
  with a(2) show ?thesis by simp
qed

lemma is_directory_parse:
  assumes "i < length (split_nl (strip tree_text))" "named (split_nl (strip tree_text) ! i)"
  shows "is_directory (all_nodes (fst (parse self tree_text)) !
           length (filter named (take i (split_nl (strip tree_text))))) =
         is_directory (new_node (split_nl (strip tree_text) ! i)
           (drop (Suc i) (split_nl (strip tree_text))))"
proof -
  let ?ls = "split_nl (strip tree_text)"
  let ?k = "length (filter named (take i ?ls))"
  have k: "?k < length (all_nodes (fst (parse self tree_text)))"
    using node_index_bound [OF assms] by (simp add: length_parse)
  have "is_directory (all_nodes (fst (parse self tree_text)) ! ?k) =
        map is_directory (all_nodes (fst (parse self tree_text))) ! ?k"
    using k by simp
  also have "\<dots> = map is_directory (line_nodes ?ls) ! ?k"
    using map_shape_eq(3) [OF shape_parse, of self tree_text] by simp
  also have "\<dots> = is_directory (line_nodes ?ls ! ?k)"
    using node_index_bound [OF assms] by (simp add: length_line_nodes)
  finally show ?thesis
    by (simp add: line_nodes_nth [OF assms])
qed

subsection \<open>The look-ahead in terms of the lines that follow\<close>

lemma case_next_depth:
  "(case next_depth ls of None \<Rightarrow> False | Some nd \<Rightarrow> d < nd) =
   (case dropWhile (\<lambda>l. strip l = []) ls of [] \<Rightarrow> False | l # _ \<Rightarrow> d < fst (parse_line l))"
  by (induction ls) simp_all

subsection \<open>The first scenario, written with the tokens of \<open>const.py\<close>\<close>

text \<open>
  With the tokens that \<open>const.py\<close> defines in place of the box-drawing ones, \<open>parse\<close> builds
  the tree that the specification describes for its first scenario.
\<close>

lemma scenario1_with_const_tokens:
  "parse_tree scenario1_const =
     (\<lparr>root = Some 0, all_nodes =
        [\<lparr>name = ascii ''project'', is_directory = True, depth = 0, children = [1, 3], parent = None\<rparr>,
         \<lparr>name = ascii ''src'', is_directory = True, depth = 1, children = [2], parent = Some 0\<rparr>,
         \<lparr>name = ascii ''main.py'', is_directory = False, depth = 2, children = [], parent = Some 1\<rparr>,
         \<lparr>name = ascii ''README.md'', is_directory = False, depth = 1, children = [], parent = Some 0\<rparr>]\<rparr>,
      Some 0)"
  by (simp add: eval_defs)

lemma scenario1_with_const_tokens_paths:
  "get_all_paths (fst (parse_tree scenario1_const)) (ascii ''/tmp/'') =
     Some [(ascii ''/tmp/project'', True), (ascii ''/tmp/project/src'', True),
           (ascii ''/tmp/project/src/main.py'', False), (ascii ''/tmp/project/README.md'', False)] \<and>
   get_summary (fst (parse_tree scenario1_const)) = \<lparr>total = 4, directories = 2, files = 2\<rparr>"
  by (simp add: scenario1_with_const_tokens) (simp add: eval_defs)

section \<open>The claims\<close>

text \<open>
  C1. Per-line extraction is claimed to stop at the BRANCH marker U+251C U+2500 U+2500 U+0020
  or the LAST marker U+2514 U+2500 U+2500 U+0020 and to return one more than the number of
  indentation tokens consumed, with the trimmed remainder as the name. \<open>_parse_line\<close> compares
  with the constants of \<open>const.py\<close>, which are other code points: a line that starts with
  the box-drawing BRANCH marker followed by \<open>a\<close> is therefore taken as a marker-less line, and
  comes back at depth 0 with the marker as part of its name, where the claim gives depth 1
  and the name \<open>a\<close>. The same happens for the LAST marker and for a VERTICAL token in
  front of it.
\<close>

theorem parse_line_box_markers_not_recognised:
  "parse_line (BOX_BRANCH @ ascii ''a'') = (0, BOX_BRANCH @ ascii ''a'') \<and>
   parse_line (BOX_LAST @ ascii ''a'') = (0, BOX_LAST @ ascii ''a'') \<and>
   parse_line (BOX_VERTICAL @ BOX_LAST @ ascii ''a'') = (0, BOX_VERTICAL @ BOX_LAST @ ascii ''a'')"
  by (simp add: parse_line_def scan.simps str_defs)

text \<open>
  C2. A name that ends in \<open>/\<close> is a directory and loses the slash; otherwise the node is a
  directory exactly when the next non-blank line is deeper (\<open>is_directory_parse\<close> with
  \<open>case_next_depth\<close>). The claim's own example of the inference fails on the code:
  the line \<open>src\<close> followed by the box-drawing BRANCH marker and \<open>main.ext\<close> must make
  \<open>src\<close> a directory, but the second line is not recognised as a marker line (see C1), its
  depth is 0, and \<open>src\<close> is classified as a file.
\<close>

theorem src_before_box_branch_is_a_file:
  "parse_tree (ascii ''src'' @ 10 # BOX_BRANCH @ ascii ''main.ext'') =
     (\<lparr>root = Some 0, all_nodes =
        [\<lparr>name = ascii ''src'', is_directory = False, depth = 0, children = [], parent = None\<rparr>,
         \<lparr>name = BOX_BRANCH @ ascii ''main.ext'', is_directory = False, depth = 0,
           children = [], parent = None\<rparr>]\<rparr>, Some 0)"
  by (simp add: eval_defs)

text \<open>
  C3, as claimed: the root has depth 0 whatever depth per-line extraction computes for its
  line. This fails: the input consisting of \<open>TREE_BRANCH\<close> followed by \<open>a\<close> gives a root
  whose \<open>depth\<close> field is 1.
\<close>

theorem root_depth_counterexample:
  "snd (parse_tree (TREE_BRANCH @ ascii ''a'')) = Some 0 \<and>
   all_nodes (fst (parse_tree (TREE_BRANCH @ ascii ''a''))) ! 0 =
     \<lparr>name = ascii ''a'', is_directory = False, depth = 1, children = [], parent = None\<rparr>"
  by (simp add: eval_defs)

text \<open>
  C3, amended: when the trimmed text has a line that is not blank and yields a non-empty name,
  \<open>parse\<close> returns the node built from the first such line; that node is the first one
  created, it has no parent, its name is the extracted name without trailing slashes, and its
  \<open>depth\<close> field is the depth that per-line extraction computes for that line (it is not
  reset to 0).
\<close>

theorem root_is_first_named_line:
  assumes "filter named (split_nl (strip tree_text)) = line # others"
  shows "snd (parse self tree_text) = Some 0 \<and>
         name (all_nodes (fst (parse self tree_text)) ! 0) = rstrip_slash (snd (parse_line line)) \<and>
         depth (all_nodes (fst (parse self tree_text)) ! 0) = fst (parse_line line) \<and>
         parent (all_nodes (fst (parse self tree_text)) ! 0) = None"
proof -
  let ?ns = "all_nodes (fst (parse self tree_text))"
  have len: "0 < length ?ns" using assms by (simp add: length_parse)
  then have r: "snd (parse self tree_text) = Some 0"
    using root_parse [of self tree_text] by simp
  have "name (?ns ! 0) = map name ?ns ! 0" "depth (?ns ! 0) = map depth ?ns ! 0"
    using len by simp_all
  then have nd: "name (?ns ! 0) = rstrip_slash (snd (parse_line line))"
    "depth (?ns ! 0) = fst (parse_line line)"
    using assms by (simp_all add: names_parse depths_parse)
  have "parent (?ns ! 0) = None"
    using linkedD(3) [OF linked_parse len] by simp
  with r nd show ?thesis by simp
qed

theorem root_is_first_named_line_witness:
  "filter named (split_nl (strip (10 # TREE_BRANCH @ 10 # TREE_LAST @ ascii ''top/'' @ 10 # ascii ''x''))) =
     [TREE_LAST @ ascii ''top/'', ascii ''x''] \<and>
   snd (parse init (10 # TREE_BRANCH @ 10 # TREE_LAST @ ascii ''top/'' @ 10 # ascii ''x'')) = Some 0 \<and>
   name (all_nodes (fst (parse init (10 # TREE_BRANCH @ 10 # TREE_LAST @ ascii ''top/'' @ 10 # ascii ''x''))) ! 0) = ascii ''top'' \<and>
   depth (all_nodes (fst (parse init (10 # TREE_BRANCH @ 10 # TREE_LAST @ ascii ''top/'' @ 10 # ascii ''x''))) ! 0) = 1 \<and>
   parent (all_nodes (fst (parse init (10 # TREE_BRANCH @ 10 # TREE_LAST @ ascii ''top/'' @ 10 # ascii ''x''))) ! 0) = None"
proof -
  have h: "filter named (split_nl (strip (10 # TREE_BRANCH @ 10 # TREE_LAST @ ascii ''top/'' @ 10 # ascii ''x''))) =
     [TREE_LAST @ ascii ''top/'', ascii ''x'']"
    by (simp add: eval_defs)
  have p: "parse_line (TREE_LAST @ ascii ''top/'') = (1, ascii ''top/'')"
    by (simp add: eval_defs)
  have s: "rstrip_slash (ascii ''top/'') = ascii ''top''"
    by (simp add: eval_defs)
  from root_is_first_named_line [OF h, of init] h p s show ?thesis by simp
qed







text \<open>
  C6, as claimed: the look-ahead skips non-blank lines that yield an empty name, so that such
  lines never change the classification of their neighbours. This fails both ways. \<open>a\<close>
  followed by \<open>TREE_BRANCH b\<close> is a directory; with a line consisting of \<open>TREE_VERTICAL\<close>
  between them, \<open>a\<close> is a file although \<open>b\<close> is still its child. \<open>a\<close> followed by \<open>b\<close>
  is a file; with a line consisting of \<open>TREE_BRANCH\<close> between them, \<open>a\<close> is a directory
  without children.
\<close>

theorem look_ahead_stops_at_empty_name_line_counterexample:
  "is_directory (all_nodes (fst (parse_tree (ascii ''a'' @ 10 # TREE_BRANCH @ ascii ''b''))) ! 0) \<and>
   \<not> named TREE_VERTICAL \<and> strip TREE_VERTICAL \<noteq> [] \<and>
   all_nodes (fst (parse_tree (ascii ''a'' @ 10 # TREE_VERTICAL @ 10 # TREE_BRANCH @ ascii ''b''))) =
     [\<lparr>name = ascii ''a'', is_directory = False, depth = 0, children = [1], parent = None\<rparr>,
      \<lparr>name = ascii ''b'', is_directory = False, depth = 1, children = [], parent = Some 0\<rparr>] \<and>
   \<not> is_directory (all_nodes (fst (parse_tree (ascii ''a'' @ 10 # ascii ''b''))) ! 0) \<and>
   \<not> named TREE_BRANCH \<and> strip TREE_BRANCH \<noteq> [] \<and>
   all_nodes (fst (parse_tree (ascii ''a'' @ 10 # TREE_BRANCH @ 10 # ascii ''b''))) =
     [\<lparr>name = ascii ''a'', is_directory = True, depth = 0, children = [], parent = None\<rparr>,
      \<lparr>name = ascii ''b'', is_directory = False, depth = 0, children = [], parent = None\<rparr>]"
  by (simp add: eval_defs)

text \<open>
  C6, amended: for a line that produces a node and whose extracted name has no trailing slash,
  the look-ahead skips blank lines only and uses the depth that per-line extraction returns for
  the next non-blank line, whether or not that line yields a name: the node is a directory
  exactly when that depth is greater than its own, and a file when no non-blank line follows.
  (The node of the \<open>i\<close>-th line is found at the index that counts the node-producing lines
  before it.)
\<close>

theorem look_ahead_uses_next_non_blank_line:
  assumes "i < length (split_nl (strip tree_text))"
    and "named (split_nl (strip tree_text) ! i)"
    and "\<not> endswith_slash (snd (parse_line (split_nl (strip tree_text) ! i)))"
  shows "is_directory (all_nodes (fst (parse self tree_text)) !
           length (filter named (take i (split_nl (strip tree_text))))) =
         (case dropWhile (\<lambda>l. strip l = []) (drop (Suc i) (split_nl (strip tree_text))) of
            [] \<Rightarrow> False
          | l # _ \<Rightarrow> fst (parse_line (split_nl (strip tree_text) ! i)) < fst (parse_line l))"
proof -
  let ?ls = "split_nl (strip tree_text)"
  have "is_directory (new_node (?ls ! i) (drop (Suc i) ?ls)) =
        (case next_depth (drop (Suc i) ?ls) of None \<Rightarrow> False
         | Some nd \<Rightarrow> fst (parse_line (?ls ! i)) < nd)"
    using assms(3) by (simp add: new_node_def Let_def)
  also have "\<dots> = (case dropWhile (\<lambda>l. strip l = []) (drop (Suc i) ?ls) of [] \<Rightarrow> False
          | l # _ \<Rightarrow> fst (parse_line (?ls ! i)) < fst (parse_line l))"
    by (rule case_next_depth)
  finally show ?thesis
    unfolding is_directory_parse [OF assms(1,2)] .
qed

theorem look_ahead_uses_next_non_blank_line_witness:
  "0 < length (split_nl (strip (ascii ''a'' @ 10 # 32 # 10 # TREE_VERTICAL @ 10 # TREE_BRANCH @ ascii ''b''))) \<and>
   named (split_nl (strip (ascii ''a'' @ 10 # 32 # 10 # TREE_VERTICAL @ 10 # TREE_BRANCH @ ascii ''b'')) ! 0) \<and>
   \<not> endswith_slash (snd (parse_line (split_nl (strip (ascii ''a'' @ 10 # 32 # 10 # TREE_VERTICAL @ 10 # TREE_BRANCH @ ascii ''b'')) ! 0))) \<and>
   dropWhile (\<lambda>l. strip l = []) (drop (Suc 0) (split_nl (strip (ascii ''a'' @ 10 # 32 # 10 # TREE_VERTICAL @ 10 # TREE_BRANCH @ ascii ''b'')))) =
     [TREE_VERTICAL, TREE_BRANCH @ ascii ''b''] \<and>
   is_directory (all_nodes (fst (parse init (ascii ''a'' @ 10 # 32 # 10 # TREE_VERTICAL @ 10 # TREE_BRANCH @ ascii ''b''))) ! 0) =
     (fst (parse_line (ascii ''a'')) < fst (parse_line TREE_VERTICAL))"
proof -
  let ?t = "ascii ''a'' @ 10 # 32 # 10 # TREE_VERTICAL @ 10 # TREE_BRANCH @ ascii ''b''"
  have l: "split_nl (strip ?t) = [ascii ''a'', [32], TREE_VERTICAL, TREE_BRANCH @ ascii ''b'']"
    by (simp add: eval_defs)
  have h: "0 < length (split_nl (strip ?t))" "named (split_nl (strip ?t) ! 0)"
    "\<not> endswith_slash (snd (parse_line (split_nl (strip ?t) ! 0)))"
    by (simp_all add: l) (simp_all add: eval_defs)
  have d: "dropWhile (\<lambda>l. strip l = []) (drop (Suc 0) (split_nl (strip ?t))) =
      [TREE_VERTICAL, TREE_BRANCH @ ascii ''b'']"
    by (simp add: l) (simp add: eval_defs)
  from look_ahead_uses_next_non_blank_line [OF h, of init] h d l show ?thesis
    by simp
qed

text \<open>
  C7, as claimed: \<open>parse\<close> returns \<open>None\<close> when every non-blank line of the input extracts to an
  empty name. This fails: the input that consists of \<open>TREE_BRANCH\<close> alone is one non-blank line
  with an empty extracted name, but \<open>parse\<close> trims the whole text first, which removes the
  marker's final space; what is left is no marker any more and becomes the root's name.
\<close>

theorem marker_only_input_counterexample:
  "split_nl TREE_BRANCH = [TREE_BRANCH] \<and> strip TREE_BRANCH \<noteq> [] \<and>
   snd (parse_line TREE_BRANCH) = [] \<and>
   parse_tree TREE_BRANCH =
     (\<lparr>root = Some 0, all_nodes =
        [\<lparr>name = butlast TREE_BRANCH, is_directory = False, depth = 0,
           children = [], parent = None\<rparr>]\<rparr>, Some 0)"
  by (simp add: eval_defs)

text \<open>
  C7, amended: \<open>parse\<close> returns \<open>None\<close> exactly when the input has no non-blank line, that
  is, when every character of it is whitespace; equivalently, exactly when every line of the
  trimmed text is blank or extracts to an empty name. On every other input it returns the
  first node. The model of \<open>parse\<close> is a total function without an error value, as no
  statement of \<open>parse\<close> or \<open>_parse_line\<close> can raise.
\<close>

theorem parse_returns_None_iff_input_blank:
  "(snd (parse self tree_text) = None) = (\<forall>c\<in>set tree_text. isspace c) \<and>
   (snd (parse self tree_text) = None) =
     (\<forall>line\<in>set (split_nl (strip tree_text)). strip line = [] \<or> snd (parse_line line) = []) \<and>
   (snd (parse self tree_text) \<noteq> None \<longrightarrow> snd (parse self tree_text) = Some 0 \<and>
      all_nodes (fst (parse self tree_text)) \<noteq> [])"
proof (intro conjI impI)
  show "(snd (parse self tree_text) = None) = (\<forall>c\<in>set tree_text. isspace c)"
    by (simp add: parse_None_iff_blank strip_eq_Nil_iff)
  show "(snd (parse self tree_text) = None) =
     (\<forall>line\<in>set (split_nl (strip tree_text)). strip line = [] \<or> snd (parse_line line) = [])"
    by (simp add: parse_None_iff_no_named_line filter_empty_conv named_def)
  assume "snd (parse self tree_text) \<noteq> None"
  then show "snd (parse self tree_text) = Some 0" "all_nodes (fst (parse self tree_text)) \<noteq> []"
    using root_parse [of self tree_text] by (simp_all split: if_splits)
qed

theorem parse_returns_None_iff_input_blank_witness:
  "list_all isspace [32, 10, 9, 10] \<and> snd (parse init [32, 10, 9, 10]) = None \<and>
   \<not> list_all isspace (10 # TREE_VERTICAL @ [10]) \<and>
   snd (parse init (10 # TREE_VERTICAL @ [10])) = Some 0"
proof -
  have a: "\<forall>c\<in>set [32, 10, 9, 10]. isspace c" by (simp add: isspace_def)
  have b: "\<not> (\<forall>c\<in>set (10 # TREE_VERTICAL @ [10]). isspace c)"
    by (simp add: isspace_def TREE_VERTICAL_def)
  from parse_returns_None_iff_input_blank [of init "[32, 10, 9, 10]"] a
  have c: "snd (parse init [32, 10, 9, 10]) = None" by blast
  from parse_returns_None_iff_input_blank [of init "10 # TREE_VERTICAL @ [10]"] b
  have d: "snd (parse init (10 # TREE_VERTICAL @ [10])) = Some 0" by blast
  from a b have "list_all isspace [32, 10, 9, 10]" "\<not> list_all isspace (10 # TREE_VERTICAL @ [10])"
    unfolding list_all_iff by blast+
  with c d show ?thesis by blast
qed

text \<open>
  C8. The first scenario, pasted with box-drawing characters, must give the root \<open>project\<close>
  with the children \<open>src\<close> (containing \<open>main.py\<close>) and \<open>README.md\<close>. On the code no line is
  recognised as a marker line (see C1): all four nodes have depth 0, keep the markers in their
  names and have no parent, the root has no children, and \<open>get_all_paths\<close> lists the root
  only. The summary is, by coincidence, the claimed one.
\<close>

theorem scenario1_parsed_flat:
  "parse_tree scenario1 =
     (\<lparr>root = Some 0, all_nodes =
        [\<lparr>name = ascii ''project'', is_directory = True, depth = 0, children = [], parent = None\<rparr>,
         \<lparr>name = BOX_BRANCH @ ascii ''src'', is_directory = True, depth = 0,
           children = [], parent = None\<rparr>,
         \<lparr>name = BOX_VERTICAL @ BOX_LAST @ ascii ''main.py'', is_directory = False, depth = 0,
           children = [], parent = None\<rparr>,
         \<lparr>name = BOX_LAST @ ascii ''README.md'', is_directory = False, depth = 0,
           children = [], parent = None\<rparr>]\<rparr>, Some 0) \<and>
   get_all_paths (fst (parse_tree scenario1)) [] = Some [(ascii ''project'', True)] \<and>
   get_summary (fst (parse_tree scenario1)) = \<lparr>total = 4, directories = 2, files = 2\<rparr>"
  by (simp add: eval_defs)

text \<open>
  C9, as claimed: every stored name is non-empty and contains no \<open>/\<close>. This fails: the line
  \<open>a/b\<close> gives a node named \<open>a/b\<close>, and the line \<open>/\<close> gives a directory node with the
  empty name.
\<close>

theorem stored_name_counterexample:
  "parse_tree (ascii ''a/b'') =
     (\<lparr>root = Some 0, all_nodes =
        [\<lparr>name = ascii ''a/b'', is_directory = False, depth = 0, children = [], parent = None\<rparr>]\<rparr>,
      Some 0) \<and>
   parse_tree (ascii ''/'') =
     (\<lparr>root = Some 0, all_nodes =
        [\<lparr>name = [], is_directory = True, depth = 0, children = [], parent = None\<rparr>]\<rparr>,
      Some 0)"
  by (simp add: eval_defs)

text \<open>
  C9, amended: the stored names are, in order, the extracted names of the lines of the trimmed
  text that are not blank and extract to a non-empty name, each with all its trailing slashes
  removed; so no stored name ends in \<open>/\<close>, and a line that reduces to an empty name
  contributes no node. Separators inside a name are kept.
\<close>

theorem stored_names_have_no_trailing_slash:
  "map name (all_nodes (fst (parse self tree_text))) =
     map (\<lambda>line. rstrip_slash (snd (parse_line line)))
       (filter (\<lambda>line. strip line \<noteq> [] \<and> snd (parse_line line) \<noteq> []) (split_nl (strip tree_text))) \<and>
   (\<forall>node\<in>set (all_nodes (fst (parse self tree_text))). \<not> endswith_slash (name node))"
proof
  have n: "named = (\<lambda>line. strip line \<noteq> [] \<and> snd (parse_line line) \<noteq> [])"
    by (rule ext) (simp add: named_def)
  show eq: "map name (all_nodes (fst (parse self tree_text))) =
     map (\<lambda>line. rstrip_slash (snd (parse_line line)))
       (filter (\<lambda>line. strip line \<noteq> [] \<and> snd (parse_line line) \<noteq> []) (split_nl (strip tree_text)))"
    using names_parse [of self tree_text] by (simp only: n)
  show "\<forall>node\<in>set (all_nodes (fst (parse self tree_text))). \<not> endswith_slash (name node)"
  proof
    fix node assume "node \<in> set (all_nodes (fst (parse self tree_text)))"
    then have "name node \<in> set (map name (all_nodes (fst (parse self tree_text))))" by simp
    then obtain line where "name node = rstrip_slash (snd (parse_line line))"
      unfolding eq by auto
    then show "\<not> endswith_slash (name node)" by (simp add: not_endswith_slash_rstrip)
  qed
qed

theorem stored_names_have_no_trailing_slash_witness:
  "map name (all_nodes (fst (parse init (ascii ''lib//'' @ 10 # TREE_BRANCH @ 32 # 10 # TREE_BRANCH @ ascii ''a/b'')))) =
     [ascii ''lib'', ascii ''a/b''] \<and>
   list_all (\<lambda>node. \<not> endswith_slash (name node))
     (all_nodes (fst (parse init (ascii ''lib//'' @ 10 # TREE_BRANCH @ 32 # 10 # TREE_BRANCH @ ascii ''a/b''))))"
proof -
  let ?t = "ascii ''lib//'' @ 10 # TREE_BRANCH @ 32 # 10 # TREE_BRANCH @ ascii ''a/b''"
  have "map (\<lambda>line. rstrip_slash (snd (parse_line line)))
       (filter (\<lambda>line. strip line \<noteq> [] \<and> snd (parse_line line) \<noteq> []) (split_nl (strip ?t))) =
      [ascii ''lib'', ascii ''a/b'']"
    by (simp add: eval_defs)
  with stored_names_have_no_trailing_slash [of init ?t] show ?thesis
    unfolding list_all_iff by simp
qed

text \<open>
  C10. Before any successful parse, that is on a fresh parser object or on the object left by
  a call of \<open>parse\<close> that returned \<open>None\<close>, \<open>get_all_paths\<close> returns the empty list for every
  base path and \<open>get_summary\<close> returns the three counts 0; both return normally.
\<close>

theorem no_parse_empty_paths_and_zero_summary:
  assumes "self = init \<or> (\<exists>self0 tree_text. parse self0 tree_text = (self, None))"
  shows "get_all_paths self base_path = Some [] \<and>
         get_summary self = \<lparr>total = 0, directories = 0, files = 0\<rparr>"
proof -
  have "root self = None \<and> all_nodes self = []"
    using assms parse_None_state by (auto simp: init_def)
  then show ?thesis
    by (simp add: get_all_paths_def get_summary_def)
qed

theorem no_parse_empty_paths_and_zero_summary_witness:
  "parse init (ascii '' '') = (init, None) \<and>
   get_all_paths init (ascii ''/tmp'') = Some [] \<and>
   get_summary init = \<lparr>total = 0, directories = 0, files = 0\<rparr>"
proof -
  have p: "parse init (ascii '' '') = (init, None)"
    by (simp add: str_defs parse_defs)
  then have "init = init \<or> (\<exists>self0 tree_text. parse self0 tree_text = (init, None))"
    by blast
  from no_parse_empty_paths_and_zero_summary [OF this, of "ascii ''/tmp''"] p
  show ?thesis by simp
qed

end
